theory Spec2Isabelle
  imports Main "HOL-Library.Sublist"
begin

section \<open>Data model of the trace dumper\<close>

text \<open>
  The script \<^verbatim>\<open>dumper.py\<close> post-processes a list \<^verbatim>\<open>data\<close> of dictionaries.
  An event dictionary carries the key \<^verbatim>\<open>'type'\<close> (either \<^verbatim>\<open>'transition'\<close> or
  \<^verbatim>\<open>'annotation'\<close>), the access fields, a description and a \<^verbatim>\<open>'trace'\<close>, a list of
  frame dictionaries. The keys \<^verbatim>\<open>'relevant'\<close> of an event and \<^verbatim>\<open>'contents'\<close> of a frame
  are absent in the input and stored by the script, hence optional here.
  One list element of a \<^typ>\<open>string\<close> stands for one character of a Python string.
  The script updates the dictionaries in place; the events of the list and the frames of
  the traces are taken to be distinct objects, so an update of one is an update of that
  list element only. For an Annotation event the script reads the key \<^verbatim>\<open>'type'\<close> only.
\<close>

type_synonym address = string
type_synonym thread = int

record frame =
  "file" :: string
  line :: int
  column :: int
  "function" :: string
  contents :: "string option"

datatype event_type = transition | annotation

record event =
  type :: event_type
  address :: address
  thread :: thread
  does_write :: bool
  description :: string
  trace :: "frame list"
  relevant :: "bool option"

datatype error = FileUnavailable string | IndexError | KeyError

section \<open>Python primitives used by the script\<close>

text \<open>The substring test \<^verbatim>\<open>s in t\<close> on strings.\<close>

fun str_in :: "string \<Rightarrow> string \<Rightarrow> bool" where
  "str_in s [] = (s = [])"
| "str_in s (c # cs) = (prefix s (c # cs) \<or> str_in s cs)"

text \<open>Indexing \<^verbatim>\<open>xs[i]\<close>: a negative index counts from the end, out of range raises.\<close>

definition py_index :: "'a list \<Rightarrow> int \<Rightarrow> error + 'a" where
  "py_index xs i =
     (if 0 \<le> i \<and> i < int (length xs) then Inr (xs ! nat i)
      else if i < 0 \<and> - int (length xs) \<le> i then Inr (xs ! nat (int (length xs) + i))
      else Inl IndexError)"

text \<open>The slices \<^verbatim>\<open>a[:b]\<close> and \<^verbatim>\<open>a[b:]\<close>; they clamp and never raise.\<close>

definition slice_to :: "'a list \<Rightarrow> int \<Rightarrow> 'a list" where
  "slice_to a b = (if b < 0 then take (nat (int (length a) + b)) a else take (nat b) a)"

definition slice_from :: "'a list \<Rightarrow> int \<Rightarrow> 'a list" where
  "slice_from a b = (if b < 0 then drop (nat (int (length a) + b)) a else drop (nat b) a)"

section \<open>Access sets (lines 4 to 12)\<close>

text \<open>
  \<^verbatim>\<open>readers\<close> and \<^verbatim>\<open>writers\<close> are \<^verbatim>\<open>defaultdict(set)\<close>: total functions from
  addresses to thread sets, the empty set where nothing was stored.
\<close>

type_synonym access = "address \<Rightarrow> thread set"

definition add_thread :: "access \<Rightarrow> address \<Rightarrow> thread \<Rightarrow> access" where
  "add_thread m a th = m(a := insert th (m a))"

fun build_access :: "event list \<Rightarrow> access \<times> access \<Rightarrow> access \<times> access" where
  "build_access [] (writers, readers) = (writers, readers)"
| "build_access (t # ts) (writers, readers) =
     (if type t = transition then
        (if does_write t
         then build_access ts (add_thread writers (address t) (thread t), readers)
         else build_access ts (writers, add_thread readers (address t) (thread t)))
      else build_access ts (writers, readers))"

definition writers_of :: "event list \<Rightarrow> access" where
  "writers_of data = fst (build_access data (\<lambda>_. {}, \<lambda>_. {}))"

definition readers_of :: "event list \<Rightarrow> access" where
  "readers_of data = snd (build_access data (\<lambda>_. {}, \<lambda>_. {}))"

section \<open>Relevance and description annotation (lines 14 to 22)\<close>

definition is_relevant :: "thread set \<Rightarrow> thread set \<Rightarrow> bool" where
  "is_relevant ws rs = (card ws > 1 \<or> card ws = 1 \<and> card (rs - ws) > 0)"

text \<open>
  \<^verbatim>\<open>address_pat.sub\<close> for the pattern \<^verbatim>\<open>(0x[0-9a-f]*)\<close>: the scan goes left to right,
  a match starts at the first \<^verbatim>\<open>0x\<close>, takes as many of the characters
  \<^verbatim>\<open>0-9a-f\<close> as follow, is replaced by the template, and the scan goes on behind it.
\<close>

definition hexdigit :: "char \<Rightarrow> bool" where
  "hexdigit c = (c \<in> set ''0123456789abcdef'')"

definition span :: "string \<Rightarrow> string" where
  \<open>span m = ''<span class="addr p'' @ m @ ''">'' @ m @ ''</span>''\<close>

function address_sub :: "string \<Rightarrow> string" where
  "address_sub [] = []"
| "address_sub (c # cs) =
     (if c = CHR ''0'' \<and> cs \<noteq> [] \<and> hd cs = CHR ''x''
      then span (''0x'' @ takeWhile hexdigit (tl cs)) @ address_sub (dropWhile hexdigit (tl cs))
      else c # address_sub cs)"
  by pat_completeness auto
termination
  by (relation "measure length")
    (auto simp: less_Suc_eq_le intro: le_trans[OF length_dropWhile_le])

text \<open>
  The specification speaks of hexadecimal digits. Read by its words alone that includes the
  upper-case digits, which the pattern of the script does not have.
\<close>

definition spec_hexadecimal_digit :: "char \<Rightarrow> bool" where
  "spec_hexadecimal_digit c = (c \<in> set ''0123456789abcdefABCDEF'')"

definition classify :: "access \<Rightarrow> access \<Rightarrow> event \<Rightarrow> event" where
  "classify writers readers t =
     (if type t = transition
      then t\<lparr>relevant := Some (is_relevant (writers (address t)) (readers (address t))),
             description := address_sub (description t)\<rparr>
      else t)"

section \<open>Frame resolution and the frame filters (lines 24 to 48)\<close>

text \<open>
  The file system is a parameter: \<open>fs p\<close> is what \<^verbatim>\<open>open(p, 'r').readlines()\<close> returns,
  \<open>None\<close> when the file cannot be opened. \<^verbatim>\<open>files\<close> is the script's cache.
\<close>

type_synonym filesystem = "string \<rightharpoonup> string list"

definition get_lines ::
  "filesystem \<Rightarrow> (string \<rightharpoonup> string list) \<Rightarrow> string
    \<Rightarrow> error + (string \<rightharpoonup> string list) \<times> string list" where
  "get_lines fs files p =
     (case files p of
        Some ls \<Rightarrow> Inr (files, ls)
      | None \<Rightarrow>
          (case fs p of
             None \<Rightarrow> Inl (FileUnavailable p)
           | Some ls \<Rightarrow> Inr (files(p \<mapsto> ls), ls)))"

definition token_chars :: string where
  "token_chars = ''abcdefghijkmnlopqrstuvwxyzABCDEFGHIJKLMNOPQRSTUVWXYZ_1234567890:.->''"

function scan_token :: "string \<Rightarrow> int \<Rightarrow> string \<Rightarrow> error + string \<times> int" where
  "scan_token a b c =
     (if b < int (length a) then
        (case py_index a b of
           Inl e \<Rightarrow> Inl e
         | Inr ch \<Rightarrow>
             if ch \<in> set token_chars then scan_token a (b + 1) (c @ [ch]) else Inr (c, b))
      else Inr (c, b))"
  by pat_completeness auto
termination
  by (relation "measure (\<lambda>(a, b, c). nat (int (length a) - b))") auto

declare scan_token.simps [simp del]

definition highlight :: "string \<Rightarrow> int \<Rightarrow> error + string" where
  "highlight a col =
     (let b = col - 1 in
      if b < int (length a) then
        (case scan_token a b (slice_to a b) of
           Inl e \<Rightarrow> Inl e
         | Inr (c, b') \<Rightarrow> Inr (c @ slice_from a b'))
      else Inr a)"

definition resolve_frame ::
  "filesystem \<Rightarrow> (string \<rightharpoonup> string list) \<Rightarrow> frame
    \<Rightarrow> error + (string \<rightharpoonup> string list) \<times> frame" where
  "resolve_frame fs files l =
     (case get_lines fs files (file l) of
        Inl e \<Rightarrow> Inl e
      | Inr (files', ls) \<Rightarrow>
          (case py_index ls (line l - 1) of
             Inl e \<Rightarrow> Inl e
           | Inr a \<Rightarrow>
               (case highlight a (column l) of
                  Inl e \<Rightarrow> Inl e
                | Inr a' \<Rightarrow> Inr (files', l\<lparr>contents := Some a'\<rparr>))))"

fun resolve_trace ::
  "filesystem \<Rightarrow> (string \<rightharpoonup> string list) \<Rightarrow> frame list
    \<Rightarrow> error + (string \<rightharpoonup> string list) \<times> frame list" where
  "resolve_trace fs files [] = Inr (files, [])"
| "resolve_trace fs files (l # ls) =
     (case resolve_frame fs files l of
        Inl e \<Rightarrow> Inl e
      | Inr (files', l') \<Rightarrow>
          (case resolve_trace fs files' ls of
             Inl e \<Rightarrow> Inl e
           | Inr (files'', ls') \<Rightarrow> Inr (files'', l' # ls')))"

definition frame_deny :: "string list" where
  "frame_deny = [''::atomic'', ''__atomic_base'', ''boost::lockfree::CAS'',
                 ''boost::lockfree::tagged_ptr'']"

definition frame_filter :: "frame list \<Rightarrow> frame list" where
  "frame_filter tr =
     fold (\<lambda>s tr. filter (\<lambda>l. \<not> str_in s (function l)) tr) frame_deny tr"

definition sanitize_event ::
  "filesystem \<Rightarrow> (string \<rightharpoonup> string list) \<Rightarrow> event
    \<Rightarrow> error + (string \<rightharpoonup> string list) \<times> event" where
  "sanitize_event fs files t =
     (if type t = transition then
        (case resolve_trace fs files (trace t) of
           Inl e \<Rightarrow> Inl e
         | Inr (files', tr) \<Rightarrow> Inr (files', t\<lparr>trace := frame_filter tr\<rparr>))
      else Inr (files, t))"

fun sanitize_events ::
  "filesystem \<Rightarrow> (string \<rightharpoonup> string list) \<Rightarrow> event list
    \<Rightarrow> error + (string \<rightharpoonup> string list) \<times> event list" where
  "sanitize_events fs files [] = Inr (files, [])"
| "sanitize_events fs files (t # ts) =
     (case sanitize_event fs files t of
        Inl e \<Rightarrow> Inl e
      | Inr (files', t') \<Rightarrow>
          (case sanitize_events fs files' ts of
             Inl e \<Rightarrow> Inl e
           | Inr (files'', ts') \<Rightarrow> Inr (files'', t' # ts')))"

section \<open>Dropping events (lines 50 to 53)\<close>

text \<open>
  \<^verbatim>\<open>all('guards.protect' not in l['contents'] for l in t['trace'])\<close> reads the key
  \<^verbatim>\<open>'contents'\<close> frame by frame and stops at the first frame that contains the needle;
  a frame without the key raises.
\<close>

fun all_contents_not_in :: "string \<Rightarrow> frame list \<Rightarrow> error + bool" where
  "all_contents_not_in s [] = Inr True"
| "all_contents_not_in s (l # ls) =
     (case contents l of
        None \<Rightarrow> Inl KeyError
      | Some c \<Rightarrow> if str_in s c then Inr False else all_contents_not_in s ls)"

fun keep_contents :: "string \<Rightarrow> event list \<Rightarrow> error + event list" where
  "keep_contents s [] = Inr []"
| "keep_contents s (t # ts) =
     (case (if type t = annotation then Inr True else all_contents_not_in s (trace t)) of
        Inl e \<Rightarrow> Inl e
      | Inr keep \<Rightarrow>
          (case keep_contents s ts of
             Inl e \<Rightarrow> Inl e
           | Inr ts' \<Rightarrow> Inr (if keep then t # ts' else ts')))"

definition keep_function :: "string \<Rightarrow> event list \<Rightarrow> event list" where
  "keep_function s data =
     filter (\<lambda>t. type t = annotation \<or> list_all (\<lambda>l. \<not> str_in s (function l)) (trace t)) data"

definition drop_events :: "event list \<Rightarrow> error + event list" where
  "drop_events data =
     (case keep_contents ''guards.protect'' data of
        Inl e \<Rightarrow> Inl e
      | Inr data \<Rightarrow>
          Inr (keep_function ''Guard''
                (keep_function ''HPAllocator''
                  (keep_function ''AllocateHPRec'' data))))"

section \<open>The whole script (lines 1 to 53)\<close>

definition classify_all :: "event list \<Rightarrow> event list" where
  "classify_all data = map (classify (writers_of data) (readers_of data)) data"

definition dumper :: "filesystem \<Rightarrow> event list \<Rightarrow> error + event list" where
  "dumper fs data =
     (case sanitize_events fs Map.empty (classify_all data) of
        Inl e \<Rightarrow> Inl e
      | Inr (files, data') \<Rightarrow> drop_events data')"

section \<open>The script without its cache\<close>

text \<open>
  What the script computes for a frame and for an event, written without the cache
  \<^verbatim>\<open>files\<close>, and the two denylists as predicates on a frame. The properties below
  relate the script to these.
\<close>

definition frame_contents :: "filesystem \<Rightarrow> frame \<Rightarrow> error + string" where
  "frame_contents fs l =
     (case fs (file l) of
        None \<Rightarrow> Inl (FileUnavailable (file l))
      | Some ls \<Rightarrow>
          (case py_index ls (line l - 1) of
             Inl e \<Rightarrow> Inl e
           | Inr a \<Rightarrow> highlight a (column l)))"

definition resolvable :: "filesystem \<Rightarrow> frame \<Rightarrow> bool" where
  "resolvable fs l = (case frame_contents fs l of Inl e \<Rightarrow> False | Inr c \<Rightarrow> True)"

definition with_contents :: "filesystem \<Rightarrow> frame \<Rightarrow> frame" where
  "with_contents fs l =
     l\<lparr>contents := (case frame_contents fs l of Inl e \<Rightarrow> None | Inr c \<Rightarrow> Some c)\<rparr>"

definition frame_denied :: "frame \<Rightarrow> bool" where
  "frame_denied l = list_ex (\<lambda>s. str_in s (function l)) frame_deny"

definition sanitizable :: "filesystem \<Rightarrow> event \<Rightarrow> bool" where
  "sanitizable fs t = (type t = annotation \<or> list_all (resolvable fs) (trace t))"

definition sanitize :: "filesystem \<Rightarrow> event \<Rightarrow> event" where
  "sanitize fs t =
     (if type t = transition
      then t\<lparr>trace := filter (\<lambda>l. \<not> frame_denied l) (map (with_contents fs) (trace t))\<rparr>
      else t)"

definition event_denied :: "frame \<Rightarrow> bool" where
  "event_denied l =
     ((case contents l of None \<Rightarrow> False | Some c \<Rightarrow> str_in ''guards.protect'' c) \<or>
      str_in ''AllocateHPRec'' (function l) \<or>
      str_in ''HPAllocator'' (function l) \<or>
      str_in ''Guard'' (function l))"

definition has_contents :: "event \<Rightarrow> bool" where
  "has_contents t =
     (type t = annotation \<or> list_all (\<lambda>l. contents l \<noteq> None) (trace t))"

definition kept :: "event \<Rightarrow> bool" where
  "kept t = (type t = annotation \<or> \<not> list_ex event_denied (trace t))"

section \<open>A small trace\<close>

text \<open>
  A file of two lines and a trace over it, used to run the script on concrete input:
  a write by thread 1, an annotation, and a read by thread 2 whose first frame stands on
  the \<^verbatim>\<open>guards.protect\<close> line.
\<close>

definition ex_fs :: filesystem where
  "ex_fs = [''queue.h'' \<mapsto> [''  guards.protect(0, head);'' @ [CHR 0x0A],
                              ''  return ds->pop(x);'' @ [CHR 0x0A]]]"

definition ex_frame :: "string \<Rightarrow> int \<Rightarrow> int \<Rightarrow> string \<Rightarrow> frame" where
  "ex_frame f l c fn = \<lparr>file = f, line = l, column = c, function = fn, contents = None\<rparr>"

definition ex_event :: "event_type \<Rightarrow> thread \<Rightarrow> bool \<Rightarrow> frame list \<Rightarrow> event" where
  "ex_event ty th w tr =
     \<lparr>type = ty, address = ''0x10'', thread = th, does_write = w, description = ''access'',
      trace = tr, relevant = None\<rparr>"

definition ex_mixed :: event where
  "ex_mixed =
     ex_event transition 2 False
       [ex_frame ''queue.h'' 1 3 ''Queue::pop'', ex_frame ''queue.h'' 2 10 ''main'']"

definition ex_annotated :: event where
  "ex_annotated = ex_event annotation 0 False [ex_frame ''queue.h'' 1 3 ''std::atomic<int>::load'']"

definition ex_missing :: event where
  "ex_missing = ex_event transition 1 True [ex_frame ''gone.cc'' 1 1 ''main'']"

definition ex_data :: "event list" where
  "ex_data =
     [ex_event transition 1 True
        [ex_frame ''queue.h'' 2 10 ''Queue::pop'', ex_frame ''queue.h'' 2 3 ''std::atomic<int>::load''],
      ex_event annotation 0 False [ex_frame ''queue.h'' 1 3 ''Guard::Guard''],
      ex_mixed]"

definition ex_out :: "event list" where
  "ex_out =
     [(ex_event transition 1 True
        [(ex_frame ''queue.h'' 2 10 ''Queue::pop'')\<lparr>contents := Some (''  return ds->pop(x);'' @ [CHR 0x0A])\<rparr>])
        \<lparr>relevant := Some True\<rparr>,
      ex_event annotation 0 False [ex_frame ''queue.h'' 1 3 ''Guard::Guard'']]"

section \<open>Access sets and relevance: properties\<close>

lemma str_in_sublist: "str_in s t = sublist s t"
  by (induction t) (auto simp: sublist_Cons_right)

lemma build_access_fst:
  "fst (build_access data (w, r)) a =
     w a \<union> {thread t |t. t \<in> set data \<and> type t = transition \<and> does_write t \<and> address t = a}"
  by (induction data arbitrary: w r) (auto simp: add_thread_def)

lemma build_access_snd:
  "snd (build_access data (w, r)) a =
     r a \<union> {thread t |t. t \<in> set data \<and> type t = transition \<and> \<not> does_write t \<and> address t = a}"
  by (induction data arbitrary: w r) (auto simp: add_thread_def)

lemma writers_of_eq:
  "writers_of data a =
     {thread t |t. t \<in> set data \<and> type t = transition \<and> does_write t \<and> address t = a}"
  by (simp add: writers_of_def build_access_fst)

lemma readers_of_eq:
  "readers_of data a =
     {thread t |t. t \<in> set data \<and> type t = transition \<and> \<not> does_write t \<and> address t = a}"
  by (simp add: readers_of_def build_access_snd)

lemma finite_readers_of: "finite (readers_of data a)"
proof -
  have "readers_of data a \<subseteq> thread ` set data"
    by (auto simp: readers_of_eq)
  then show ?thesis
    by (rule finite_subset) simp
qed

lemma is_relevant_insert: "is_relevant ws rs \<Longrightarrow> is_relevant (insert th ws) rs"
proof -
  assume rel: "is_relevant ws rs"
  then have fin: "finite ws"
    unfolding is_relevant_def by (metis card.infinite not_one_less_zero zero_neq_one less_nat_zero_code)
  show ?thesis
  proof (cases "th \<in> ws")
    case True
    then show ?thesis using rel by (simp add: insert_absorb)
  next
    case False
    then have "card (insert th ws) = Suc (card ws)"
      using fin by simp
    moreover have "card ws \<ge> 1"
      using rel unfolding is_relevant_def by auto
    ultimately show ?thesis
      unfolding is_relevant_def by simp
  qed
qed

text \<open>
  Claim C8. Relevance is monotone in the writer set: with the reader sets fixed, storing one
  more thread in the writer set of an address never turns a relevant address (this one or
  any other) into an irrelevant one.
\<close>

theorem relevance_monotone:
  "is_relevant (writers a') (readers a') \<Longrightarrow>
   is_relevant (add_thread writers a th a') (readers a')"
  by (auto simp: add_thread_def is_relevant_insert)

theorem relevance_monotone_witness:
  "is_relevant (((\<lambda>_. {})(''0x10'' := {1})) ''0x10'') (((\<lambda>_. {})(''0x10'' := {2})) ''0x10'') \<and>
   is_relevant (add_thread ((\<lambda>_. {})(''0x10'' := {1})) ''0x10'' 3 ''0x10'') (((\<lambda>_. {})(''0x10'' := {2})) ''0x10'')"
proof -
  have h: "is_relevant (((\<lambda>_. {})(''0x10'' := {1::int})) ''0x10'') (((\<lambda>_. {})(''0x10'' := {2})) ''0x10'')"
    by (simp add: is_relevant_def)
  show ?thesis
    using h relevance_monotone [where writers = "(\<lambda>_. {})(''0x10'' := {1})" and a' = "''0x10''"
        and readers = "(\<lambda>_. {})(''0x10'' := {2})" and a = "''0x10''" and th = 3]
    by simp
qed

section \<open>The description annotator: properties\<close>

lemma prefix_0x_iff:
  "prefix ''0x'' (c # cs) \<longleftrightarrow> c = CHR ''0'' \<and> cs \<noteq> [] \<and> hd cs = CHR ''x''"
  by (cases cs) auto

lemma takeWhile_hex_run:
  "list_all hexdigit h \<Longrightarrow> rest = [] \<or> \<not> hexdigit (hd rest) \<Longrightarrow>
   takeWhile hexdigit (h @ rest) = h \<and> dropWhile hexdigit (h @ rest) = rest"
  by (cases rest) (auto simp: takeWhile_append dropWhile_append list_all_iff)

lemma address_sub_match_here:
  assumes "list_all hexdigit h" and "rest = [] \<or> \<not> hexdigit (hd rest)"
  shows "address_sub (''0x'' @ h @ rest) = span (''0x'' @ h) @ address_sub rest"
  using takeWhile_hex_run [OF assms] by simp

lemma address_sub_skip:
  "\<not> str_in ''0x'' p \<Longrightarrow> r = [] \<or> hd r \<noteq> CHR ''x'' \<Longrightarrow>
   address_sub (p @ r) = p @ address_sub r"
proof (induction p)
  case Nil
  then show ?case by simp
next
  case (Cons c p)
  from Cons.prems have np: "\<not> prefix ''0x'' (c # p)" and ns: "\<not> str_in ''0x'' p"
    by simp_all
  have "\<not> (c = CHR ''0'' \<and> p @ r \<noteq> [] \<and> hd (p @ r) = CHR ''x'')"
    using np Cons.prems(2) by (cases p) (auto simp: prefix_0x_iff)
  then have "address_sub ((c # p) @ r) = c # address_sub (p @ r)"
    by auto
  with Cons.IH [OF ns Cons.prems(2)] show ?case by simp
qed

lemma address_sub_no_match: "\<not> str_in ''0x'' s \<Longrightarrow> address_sub s = s"
  using address_sub_skip [of s "[]"] by simp

lemma length_address_sub: "length s \<le> length (address_sub s)"
proof (induction s rule: address_sub.induct)
  case 1
  then show ?case by simp
next
  case (2 c cs)
  show ?case
  proof (cases "c = CHR ''0'' \<and> cs \<noteq> [] \<and> hd cs = CHR ''x''")
    case True
    then obtain cs' where cs: "cs = CHR ''x'' # cs'" by (cases cs) auto
    have "length (takeWhile hexdigit cs') + length (dropWhile hexdigit cs') = length cs'"
      by (metis length_append takeWhile_dropWhile_id)
    moreover have "length (dropWhile hexdigit cs') \<le> length (address_sub (dropWhile hexdigit cs'))"
      using 2(1) True cs by simp
    ultimately show ?thesis using True cs by (simp add: span_def)
  next
    case False
    then show ?thesis using 2(2) by auto
  qed
qed

lemma sublist_span: "sublist m (span m)"
  unfolding span_def by (rule sublist_appendI)

lemma str_in_span: "str_in ''0x'' (span (''0x'' @ h) @ r)"
proof -
  have "sublist ''0x'' (''0x'' @ h)"
    by (rule sublist_append_rightI)
  also have "sublist (''0x'' @ h) (span (''0x'' @ h))"
    by (rule sublist_span)
  also have "sublist (span (''0x'' @ h)) (span (''0x'' @ h) @ r)"
    by (rule sublist_append_rightI)
  finally show ?thesis
    by (simp only: str_in_sublist)
qed

lemma str_in_Cons: "str_in s cs \<Longrightarrow> str_in s (c # cs)"
  by simp

lemma address_sub_keeps_0x: "str_in ''0x'' s \<Longrightarrow> str_in ''0x'' (address_sub s)"
proof (induction s rule: address_sub.induct)
  case 1
  then show ?case by simp
next
  case (2 c cs)
  show ?case
  proof (cases "c = CHR ''0'' \<and> cs \<noteq> [] \<and> hd cs = CHR ''x''")
    case True
    then have "address_sub (c # cs) =
        span (''0x'' @ takeWhile hexdigit (tl cs)) @ address_sub (dropWhile hexdigit (tl cs))"
      by simp
    then show ?thesis by (simp only: str_in_span)
  next
    case False
    then have "\<not> prefix ''0x'' (c # cs)" using prefix_0x_iff [of c cs] by blast
    with 2(3) have "str_in ''0x'' cs" using str_in.simps(2) [of "''0x''" c cs] by blast
    then have "str_in ''0x'' (address_sub cs)" using 2(2) False by blast
    moreover have "address_sub (c # cs) = c # address_sub cs"
      using False by auto
    ultimately show ?thesis by (simp only: str_in_Cons)
  qed
qed

lemma address_sub_grows: "str_in ''0x'' s \<Longrightarrow> length s < length (address_sub s)"
proof (induction s rule: address_sub.induct)
  case 1
  then show ?case by simp
next
  case (2 c cs)
  show ?case
  proof (cases "c = CHR ''0'' \<and> cs \<noteq> [] \<and> hd cs = CHR ''x''")
    case True
    then obtain cs' where cs: "cs = CHR ''x'' # cs'" by (cases cs) auto
    have "length (takeWhile hexdigit cs') + length (dropWhile hexdigit cs') = length cs'"
      by (metis length_append takeWhile_dropWhile_id)
    moreover have "length (dropWhile hexdigit cs') \<le> length (address_sub (dropWhile hexdigit cs'))"
      by (rule length_address_sub)
    ultimately show ?thesis using True cs by (simp add: span_def)
  next
    case False
    then have "\<not> prefix ''0x'' (c # cs)" using prefix_0x_iff [of c cs] by blast
    with 2(3) have "str_in ''0x'' cs" using str_in.simps(2) [of "''0x''" c cs] by blast
    then have "length cs < length (address_sub cs)" using 2(2) False by blast
    then show ?thesis using False by auto
  qed
qed

text \<open>
  Claim C5, as the code has it. The annotator scans the description from the left. A match
  is \<^verbatim>\<open>0x\<close> followed by all the characters of \<^verbatim>\<open>0-9a-f\<close> (lower case only) that come
  next; it is replaced by \<^verbatim>\<open><span class="addr pM">M</span>\<close>, where \<^verbatim>\<open>M\<close> is the
  match, and the scan goes on behind it. So a description without \<^verbatim>\<open>0x\<close> is returned
  unchanged, and in a description \<open>p @ 0x @ h @ rest\<close>, where \<open>p\<close> has no \<^verbatim>\<open>0x\<close> and
  \<open>h\<close> is the whole run of such characters, \<open>p\<close> is kept as it is, the match is wrapped
  once in that marker, and \<open>rest\<close> is annotated in the same way: any number of matches
  is handled, and every character outside the matches is left unchanged.
\<close>

theorem address_sub_wraps_matches:
  \<open>(\<not> str_in ''0x'' s \<longrightarrow> address_sub s = s) \<and>
   (\<not> str_in ''0x'' p \<and> set h \<subseteq> set ''0123456789abcdef'' \<and>
    (rest = [] \<or> hd rest \<notin> set ''0123456789abcdef'') \<longrightarrow>
      address_sub (p @ ''0x'' @ h @ rest) =
        p @ ''<span class="addr p0x'' @ h @ ''">0x'' @ h @ ''</span>'' @ address_sub rest)\<close>
proof (intro conjI impI)
  assume "\<not> str_in ''0x'' s"
  then show "address_sub s = s" by (rule address_sub_no_match)
next
  assume a: "\<not> str_in ''0x'' p \<and> set h \<subseteq> set ''0123456789abcdef'' \<and>
    (rest = [] \<or> hd rest \<notin> set ''0123456789abcdef'')"
  then have h: "list_all hexdigit h" and r: "rest = [] \<or> \<not> hexdigit (hd rest)"
    unfolding hexdigit_def list_all_iff by blast+
  from a have "address_sub (p @ (''0x'' @ h @ rest)) = p @ address_sub (''0x'' @ h @ rest)"
    by (intro address_sub_skip) simp_all
  also have "address_sub (''0x'' @ h @ rest) = span (''0x'' @ h) @ address_sub rest"
    using h r by (rule address_sub_match_here)
  finally show \<open>address_sub (p @ ''0x'' @ h @ rest) =
      p @ ''<span class="addr p0x'' @ h @ ''">0x'' @ h @ ''</span>'' @ address_sub rest\<close>
    by (simp add: span_def)
qed

theorem address_sub_wraps_matches_witness:
  \<open>address_sub ''read of p'' = ''read of p'' \<and>
   address_sub ''cas 0x7f3a -> 0x0'' =
     ''cas <span class="addr p0x7f3a">0x7f3a</span> -> <span class="addr p0x0">0x0</span>''\<close>
proof -
  have "address_sub '' -> 0x0'' = '' -> '' @ address_sub (''0x'' @ ''0'' @ [])"
    by simp
  with address_sub_wraps_matches [of "''read of p''" "''cas ''" "''7f3a''" "'' -> 0x0''"]
    address_sub_wraps_matches [of "[]" "[]" "''0''" "[]"]
  show ?thesis by simp
qed

theorem address_sub_upper_case_counterexample:
  \<open>list_all spec_hexadecimal_digit ''ABC'' \<and>
   address_sub ''0xABC'' \<noteq> ''<span class="addr p0xABC">0xABC</span>'' \<and>
   address_sub ''0xABC'' = ''<span class="addr p0x">0x</span>ABC'' \<and>
   address_sub ''0x0x5'' = ''<span class="addr p0x0">0x0</span>x5''\<close>
  by (simp add: spec_hexadecimal_digit_def span_def hexdigit_def)

text \<open>
  Claim C6, as the code has it. Annotating twice gives the result of annotating once exactly
  for the descriptions that contain no \<^verbatim>\<open>0x\<close>; a wrapped address is wrapped again,
  in the marker's attribute and in its body, as the description \<^verbatim>\<open>0x1f\<close> shows.
\<close>

theorem address_sub_idempotent_iff:
  "address_sub (address_sub s) = address_sub s \<longleftrightarrow> \<not> str_in ''0x'' s"
proof
  assume idem: "address_sub (address_sub s) = address_sub s"
  show "\<not> str_in ''0x'' s"
  proof
    assume "str_in ''0x'' s"
    then have "str_in ''0x'' (address_sub s)" by (rule address_sub_keeps_0x)
    then have "length (address_sub s) < length (address_sub (address_sub s))"
      by (rule address_sub_grows)
    with idem show False by simp
  qed
next
  assume "\<not> str_in ''0x'' s"
  then show "address_sub (address_sub s) = address_sub s"
    by (simp add: address_sub_no_match)
qed

theorem address_sub_twice_counterexample:
  "address_sub (address_sub ''0x1f'') \<noteq> address_sub ''0x1f''"
  by (simp add: span_def hexdigit_def)

section \<open>Frame resolution, sanitization and dropping: properties\<close>

subsection \<open>classification\<close>

lemma classify_fields [simp]:
  "type (classify w r t) = type t"
  "address (classify w r t) = address t"
  "thread (classify w r t) = thread t"
  "does_write (classify w r t) = does_write t"
  "trace (classify w r t) = trace t"
  by (simp_all add: classify_def)

lemma classify_relevant:
  "type t = transition \<Longrightarrow>
   relevant (classify w r t) = Some (is_relevant (w (address t)) (r (address t)))"
  by (simp add: classify_def)

subsection \<open>token scan\<close>

lemma py_index_nat: "0 \<le> b \<Longrightarrow> b < int (length a) \<Longrightarrow> py_index a b = Inr (a ! nat b)"
  by (simp add: py_index_def)

lemma scan_token_keeps_text:
  "0 \<le> b \<Longrightarrow>
   \<exists>c' b'. scan_token a b c = Inr (c', b') \<and> 0 \<le> b' \<and>
     c' @ drop (nat b') a = c @ drop (nat b) a"
proof (induction a b c rule: scan_token.induct)
  case (1 a b c)
  show ?case
  proof (cases "b < int (length a)")
    case False
    then show ?thesis using "1.prems" by (subst scan_token.simps) simp
  next
    case True
    then have idx: "py_index a b = Inr (a ! nat b)"
      using "1.prems" by (simp add: py_index_nat)
    show ?thesis
    proof (cases "a ! nat b \<in> set token_chars")
      case False
      then show ?thesis using True idx "1.prems" by (subst scan_token.simps) simp
    next
      case tok: True
      have "0 \<le> b + 1" using "1.prems" by simp
      from "1.IH" [OF True idx tok this]
      obtain c' b' where r: "scan_token a (b + 1) (c @ [a ! nat b]) = Inr (c', b')"
        and b': "0 \<le> b'"
        and eq: "c' @ drop (nat b') a = (c @ [a ! nat b]) @ drop (nat (b + 1)) a"
        by blast
      have "nat (b + 1) = Suc (nat b)" using "1.prems" by simp
      moreover have "nat b < length a" using True "1.prems" by simp
      ultimately have "(c @ [a ! nat b]) @ drop (nat (b + 1)) a = c @ drop (nat b) a"
        by (simp add: Cons_nth_drop_Suc)
      with eq have "c' @ drop (nat b') a = c @ drop (nat b) a" by simp
      moreover have "scan_token a b c = Inr (c', b')"
        using True idx tok r by (subst scan_token.simps) simp
      ultimately show ?thesis using b' by blast
    qed
  qed
qed

lemma highlight_identity: "1 \<le> col \<Longrightarrow> highlight a col = Inr a"
proof -
  assume col: "1 \<le> col"
  then have b: "0 \<le> col - 1" by simp
  from scan_token_keeps_text [OF b, of a "slice_to a (col - 1)"]
  obtain c' b' where r: "scan_token a (col - 1) (slice_to a (col - 1)) = Inr (c', b')"
    and b': "0 \<le> b'"
    and eq: "c' @ drop (nat b') a = slice_to a (col - 1) @ drop (nat (col - 1)) a"
    by blast
  have "slice_to a (col - 1) @ drop (nat (col - 1)) a = a"
    using b by (simp add: slice_to_def)
  with eq b' have "c' @ slice_from a b' = a"
    by (simp add: slice_from_def)
  with r show ?thesis
    by (simp add: highlight_def Let_def)
qed

text \<open>
  Below column 1 the index \<open>b\<close> is negative and Python counts from the end of the line:
  the scan can run over the end of the line into its start, or raise.
\<close>

lemma highlight_below_first_column:
  "highlight ''ab'' 0 = Inr ''abab''"
  "highlight (''ab'' @ [CHR 0x0A]) 0 = Inr (''ab'' @ [CHR 0x0A])"
  "highlight ''ab'' (- 2) = Inl IndexError"
  by (simp_all add: highlight_def scan_token.simps py_index_def slice_to_def slice_from_def
      token_chars_def)

subsection \<open>the cache\<close>

lemma get_lines_cases:
  assumes "files \<subseteq>\<^sub>m fs"
  shows "(fs p = None \<and> get_lines fs files p = Inl (FileUnavailable p)) \<or>
         (\<exists>ls files'. fs p = Some ls \<and> files' \<subseteq>\<^sub>m fs \<and> get_lines fs files p = Inr (files', ls))"
proof (cases "files p")
  case None
  show ?thesis
  proof (cases "fs p")
    case n: None
    then show ?thesis using None by (simp add: get_lines_def)
  next
    case (Some ls)
    have "files(p \<mapsto> ls) \<subseteq>\<^sub>m fs"
      using assms Some by (auto simp: map_le_def)
    then show ?thesis using None Some by (simp add: get_lines_def)
  qed
next
  case (Some ls)
  then have "fs p = Some ls"
    using assms by (metis domI map_le_def)
  then show ?thesis using Some assms by (simp add: get_lines_def)
qed

lemma resolve_frame_cases:
  assumes "files \<subseteq>\<^sub>m fs"
  shows "(\<exists>e. frame_contents fs l = Inl e \<and> resolve_frame fs files l = Inl e) \<or>
         (\<exists>c files'. frame_contents fs l = Inr c \<and> files' \<subseteq>\<^sub>m fs \<and>
            resolve_frame fs files l = Inr (files', l\<lparr>contents := Some c\<rparr>))"
  using get_lines_cases [OF assms, of "file l"]
  by (auto simp: frame_contents_def resolve_frame_def split: sum.splits)

lemma resolve_trace_Inr:
  "files \<subseteq>\<^sub>m fs \<Longrightarrow> resolve_trace fs files tr = Inr (files', tr') \<Longrightarrow>
   files' \<subseteq>\<^sub>m fs \<and> list_all (resolvable fs) tr \<and> tr' = map (with_contents fs) tr"
proof (induction tr arbitrary: files tr')
  case Nil
  then show ?case by simp
next
  case (Cons l tr)
  from resolve_frame_cases [OF Cons.prems(1), of l] Cons.prems(2)
  obtain c files1 where c: "frame_contents fs l = Inr c" and f1: "files1 \<subseteq>\<^sub>m fs"
    and r: "resolve_frame fs files l = Inr (files1, l\<lparr>contents := Some c\<rparr>)"
    by auto
  from Cons.prems(2) r obtain tr1 where
    t: "resolve_trace fs files1 tr = Inr (files', tr1)" and tr': "tr' = l\<lparr>contents := Some c\<rparr> # tr1"
    by (auto split: sum.splits)
  from Cons.IH [OF f1 t] c tr' show ?case
    by (simp add: resolvable_def with_contents_def)
qed

lemma resolve_trace_total:
  "files \<subseteq>\<^sub>m fs \<Longrightarrow> list_all (resolvable fs) tr \<Longrightarrow>
   \<exists>files'. files' \<subseteq>\<^sub>m fs \<and> resolve_trace fs files tr = Inr (files', map (with_contents fs) tr)"
proof (induction tr arbitrary: files)
  case Nil
  then show ?case by simp
next
  case (Cons l tr)
  from Cons.prems(2) obtain c where c: "frame_contents fs l = Inr c"
    by (auto simp: resolvable_def split: sum.splits)
  with resolve_frame_cases [OF Cons.prems(1), of l]
  obtain files1 where f1: "files1 \<subseteq>\<^sub>m fs"
    and r: "resolve_frame fs files l = Inr (files1, l\<lparr>contents := Some c\<rparr>)"
    by auto
  from Cons.IH [OF f1] Cons.prems(2) obtain files' where
    "files' \<subseteq>\<^sub>m fs" "resolve_trace fs files1 tr = Inr (files', map (with_contents fs) tr)" by auto
  with r c show ?case by (auto simp: with_contents_def)
qed

lemma fold_filter_conj:
  "fold (\<lambda>s tr. filter (\<lambda>l. \<not> P s l) tr) ss tr = filter (\<lambda>l. \<not> list_ex (\<lambda>s. P s l) ss) tr"
proof (induction ss arbitrary: tr)
  case Nil
  then show ?case by simp
next
  case (Cons s ss)
  have "filter (\<lambda>l. \<not> list_ex (\<lambda>s. P s l) ss) (filter (\<lambda>l. \<not> P s l) tr) =
        filter (\<lambda>l. \<not> list_ex (\<lambda>s. P s l) (s # ss)) tr"
    by (induction tr) auto
  with Cons.IH show ?case by simp
qed

lemma frame_filter_eq: "frame_filter tr = filter (\<lambda>l. \<not> frame_denied l) tr"
  unfolding frame_filter_def frame_denied_def by (rule fold_filter_conj)

lemma sanitize_event_Inr:
  "files \<subseteq>\<^sub>m fs \<Longrightarrow> sanitize_event fs files t = Inr (files', t') \<Longrightarrow>
   files' \<subseteq>\<^sub>m fs \<and> sanitizable fs t \<and> t' = sanitize fs t"
  by (cases "type t")
    (auto simp: sanitize_event_def sanitizable_def sanitize_def frame_filter_eq
      split: sum.splits dest: resolve_trace_Inr)

lemma sanitize_event_total:
  assumes "files \<subseteq>\<^sub>m fs" and "sanitizable fs t"
  shows "\<exists>files'. files' \<subseteq>\<^sub>m fs \<and> sanitize_event fs files t = Inr (files', sanitize fs t)"
proof (cases "type t")
  case annotation
  then show ?thesis using assms(1) by (simp add: sanitize_event_def sanitize_def)
next
  case transition
  with assms(2) have "list_all (resolvable fs) (trace t)"
    by (simp add: sanitizable_def)
  from resolve_trace_total [OF assms(1) this] transition show ?thesis
    by (auto simp: sanitize_event_def sanitize_def frame_filter_eq)
qed

lemma sanitize_events_Inr:
  "files \<subseteq>\<^sub>m fs \<Longrightarrow> sanitize_events fs files ts = Inr (files', ts') \<Longrightarrow>
   files' \<subseteq>\<^sub>m fs \<and> list_all (sanitizable fs) ts \<and> ts' = map (sanitize fs) ts"
proof (induction ts arbitrary: files ts')
  case Nil
  then show ?case by simp
next
  case (Cons t ts)
  from Cons.prems(2) obtain files1 t1 ts1 where
    e: "sanitize_event fs files t = Inr (files1, t1)"
    and r: "sanitize_events fs files1 ts = Inr (files', ts1)" and ts': "ts' = t1 # ts1"
    by (auto split: sum.splits)
  from sanitize_event_Inr [OF Cons.prems(1) e]
  have f1: "files1 \<subseteq>\<^sub>m fs" and s: "sanitizable fs t" "t1 = sanitize fs t"
    by simp_all
  from Cons.IH [OF f1 r] s ts' show ?case by simp
qed

lemma sanitize_events_total:
  "files \<subseteq>\<^sub>m fs \<Longrightarrow> list_all (sanitizable fs) ts \<Longrightarrow>
   \<exists>files'. files' \<subseteq>\<^sub>m fs \<and> sanitize_events fs files ts = Inr (files', map (sanitize fs) ts)"
proof (induction ts arbitrary: files)
  case Nil
  then show ?case by simp
next
  case (Cons t ts)
  from Cons.prems(2) have st: "sanitizable fs t" and sts: "list_all (sanitizable fs) ts"
    by simp_all
  from sanitize_event_total [OF Cons.prems(1) st] obtain files1 where
    f1: "files1 \<subseteq>\<^sub>m fs" and e: "sanitize_event fs files t = Inr (files1, sanitize fs t)"
    by blast
  from Cons.IH [OF f1 sts] obtain files' where
    "files' \<subseteq>\<^sub>m fs" "sanitize_events fs files1 ts = Inr (files', map (sanitize fs) ts)"
    by blast
  with e show ?case by simp
qed

lemma sanitize_events_fails:
  assumes "files \<subseteq>\<^sub>m fs" and "\<not> list_all (sanitizable fs) ts"
  shows "\<exists>e. sanitize_events fs files ts = Inl e"
proof (cases "sanitize_events fs files ts")
  case (Inl e)
  then show ?thesis by blast
next
  case (Inr r)
  obtain files' ts' where "r = (files', ts')" by (cases r)
  with Inr sanitize_events_Inr [OF assms(1), of ts files' ts'] assms(2)
  show ?thesis by simp
qed

subsection \<open>dropping events\<close>

lemma all_contents_not_in_eq:
  "list_all (\<lambda>l. contents l \<noteq> None) tr \<Longrightarrow>
   all_contents_not_in s tr =
     Inr (list_all (\<lambda>l. case contents l of None \<Rightarrow> True | Some c \<Rightarrow> \<not> str_in s c) tr)"
  by (induction tr) (auto split: option.splits)

lemma keep_contents_eq:
  "list_all has_contents data \<Longrightarrow>
   keep_contents s data =
     Inr (filter (\<lambda>t. type t = annotation \<or>
            list_all (\<lambda>l. case contents l of None \<Rightarrow> True | Some c \<Rightarrow> \<not> str_in s c) (trace t)) data)"
proof (induction data)
  case Nil
  then show ?case by simp
next
  case (Cons t ts)
  then have ih: "keep_contents s ts =
     Inr (filter (\<lambda>t. type t = annotation \<or>
            list_all (\<lambda>l. case contents l of None \<Rightarrow> True | Some c \<Rightarrow> \<not> str_in s c) (trace t)) ts)"
    by simp
  show ?case
  proof (cases "type t = annotation")
    case True
    then show ?thesis using ih by simp
  next
    case False
    with Cons.prems have "list_all (\<lambda>l. contents l \<noteq> None) (trace t)"
      by (simp add: has_contents_def)
    from all_contents_not_in_eq [OF this, of s] False ih show ?thesis by simp
  qed
qed

lemma event_denied_iff:
  "\<not> list_ex event_denied tr \<longleftrightarrow>
     list_all (\<lambda>l. case contents l of None \<Rightarrow> True | Some c \<Rightarrow> \<not> str_in ''guards.protect'' c) tr \<and>
     list_all (\<lambda>l. \<not> str_in ''AllocateHPRec'' (function l)) tr \<and>
     list_all (\<lambda>l. \<not> str_in ''HPAllocator'' (function l)) tr \<and>
     list_all (\<lambda>l. \<not> str_in ''Guard'' (function l)) tr"
  by (induction tr) (auto simp: event_denied_def split: option.splits)

lemma drop_events_eq:
  assumes "list_all has_contents data"
  shows "drop_events data =
           Inr (filter (\<lambda>t. type t = annotation \<or> \<not> list_ex event_denied (trace t)) data)"
proof -
  have "keep_function ''Guard'' (keep_function ''HPAllocator'' (keep_function ''AllocateHPRec''
          (filter (\<lambda>t. type t = annotation \<or>
             list_all (\<lambda>l. case contents l of None \<Rightarrow> True
                | Some c \<Rightarrow> \<not> str_in ''guards.protect'' c) (trace t)) data))) =
        filter (\<lambda>t. type t = annotation \<or> \<not> list_ex event_denied (trace t)) data"
    unfolding keep_function_def filter_filter
    by (rule filter_cong [OF refl]) (auto simp: event_denied_iff)
  then show ?thesis
    by (simp add: drop_events_def keep_contents_eq [OF assms])
qed

lemma sanitize_has_contents: "sanitizable fs t \<Longrightarrow> has_contents (sanitize fs t)"
  by (cases "type t")
    (auto simp: sanitizable_def sanitize_def has_contents_def with_contents_def resolvable_def
      list_all_iff split: sum.splits)

subsection \<open>whole script\<close>

lemma sanitize_fields [simp]:
  "type (sanitize fs t) = type t"
  "address (sanitize fs t) = address t"
  "thread (sanitize fs t) = thread t"
  "does_write (sanitize fs t) = does_write t"
  "description (sanitize fs t) = description t"
  "relevant (sanitize fs t) = relevant t"
  by (simp_all add: sanitize_def)

lemma sanitizable_classify [simp]: "sanitizable fs (classify w r t) = sanitizable fs t"
  by (simp add: sanitizable_def)

lemma sanitizable_classify_all [simp]:
  "list_all (sanitizable fs) (classify_all data) = list_all (sanitizable fs) data"
  by (simp add: classify_all_def list_all_iff)

lemma drop_events_sanitized:
  assumes "list_all (sanitizable fs) ts"
  shows "drop_events (map (sanitize fs) ts) = Inr (filter kept (map (sanitize fs) ts))"
proof -
  have "list_all has_contents (map (sanitize fs) ts)"
    using assms by (auto simp: list_all_iff dest: sanitize_has_contents)
  from drop_events_eq [OF this] show ?thesis
    by (simp add: kept_def [abs_def])
qed

lemma dumper_total:
  assumes "list_all (sanitizable fs) data"
  shows "dumper fs data = Inr (filter kept (map (sanitize fs) (classify_all data)))"
proof -
  have c: "list_all (sanitizable fs) (classify_all data)"
    using assms by simp
  have "Map.empty \<subseteq>\<^sub>m fs" by simp
  from sanitize_events_total [OF this c] obtain files' where
    "sanitize_events fs Map.empty (classify_all data) =
       Inr (files', map (sanitize fs) (classify_all data))"
    by blast
  with drop_events_sanitized [OF c] show ?thesis
    by (simp add: dumper_def)
qed

lemma dumper_fails:
  assumes "\<not> list_all (sanitizable fs) data"
  shows "\<exists>e. dumper fs data = Inl e"
proof -
  have c: "\<not> list_all (sanitizable fs) (classify_all data)"
    using assms by simp
  have "Map.empty \<subseteq>\<^sub>m fs" by simp
  from sanitize_events_fails [OF this c] show ?thesis
    by (auto simp: dumper_def)
qed

lemma dumper_Inr:
  assumes "dumper fs data = Inr out"
  shows "list_all (sanitizable fs) data"
    and "out = filter kept (map (sanitize fs) (classify_all data))"
proof -
  show s: "list_all (sanitizable fs) data"
    using assms dumper_fails [of fs data] by (cases "list_all (sanitizable fs) data") auto
  from dumper_total [OF s] assms
  show "out = filter kept (map (sanitize fs) (classify_all data))" by simp
qed

lemma sanitize_strip: "(sanitize fs t)\<lparr>trace := []\<rparr> = t\<lparr>trace := []\<rparr>"
  by (simp add: sanitize_def)

lemma with_contents_fields [simp]:
  "file (with_contents fs l) = file l"
  "line (with_contents fs l) = line l"
  "column (with_contents fs l) = column l"
  "function (with_contents fs l) = function l"
  by (simp_all add: with_contents_def)

lemma resolvable_source_line:
  assumes "resolvable fs l" and "1 \<le> line l" and "1 \<le> column l"
  shows "\<exists>ls. fs (file l) = Some ls \<and> line l \<le> int (length ls) \<and>
           contents (with_contents fs l) = Some (ls ! nat (line l - 1))"
proof -
  from assms(1) obtain ls a c where ls: "fs (file l) = Some ls"
    and a: "py_index ls (line l - 1) = Inr a" and c: "highlight a (column l) = Inr c"
    by (auto simp: resolvable_def frame_contents_def split: option.splits sum.splits)
  from a assms(2) have "line l \<le> int (length ls)" "a = ls ! nat (line l - 1)"
    by (auto simp: py_index_def split: if_splits)
  moreover from c highlight_identity [OF assms(3), of a] have "c = a" by simp
  ultimately show ?thesis using ls a c
    by (simp add: with_contents_def frame_contents_def)
qed

lemma build_access_ignores_trace:
  "build_access (map (\<lambda>t. t\<lparr>trace := f t\<rparr>) data) (w, r) = build_access data (w, r)"
  by (induction data arbitrary: w r) auto

section \<open>The script on the small trace\<close>

lemma ex_frame_contents:
  "frame_contents ex_fs (ex_frame ''queue.h'' 2 10 fn) = Inr (''  return ds->pop(x);'' @ [CHR 0x0A])"
  "frame_contents ex_fs (ex_frame ''queue.h'' 2 3 fn) = Inr (''  return ds->pop(x);'' @ [CHR 0x0A])"
  "frame_contents ex_fs (ex_frame ''queue.h'' 1 3 fn) = Inr (''  guards.protect(0, head);'' @ [CHR 0x0A])"
  by (simp_all add: frame_contents_def ex_fs_def ex_frame_def py_index_def highlight_identity)

lemma ex_writers: "writers_of ex_data ''0x10'' = {1}" "readers_of ex_data ''0x10'' = {2}"
  by (simp_all add: writers_of_def readers_of_def ex_data_def ex_mixed_def ex_event_def add_thread_def)

lemma ex_classify_all:
  "classify_all ex_data =
     [(ex_event transition 1 True
        [ex_frame ''queue.h'' 2 10 ''Queue::pop'', ex_frame ''queue.h'' 2 3 ''std::atomic<int>::load''])
        \<lparr>relevant := Some True\<rparr>,
      ex_event annotation 0 False [ex_frame ''queue.h'' 1 3 ''Guard::Guard''],
      (ex_event transition 2 False
        [ex_frame ''queue.h'' 1 3 ''Queue::pop'', ex_frame ''queue.h'' 2 10 ''main''])
        \<lparr>relevant := Some True\<rparr>]"
  (is "_ = ?rhs")
proof -
  define W where "W = writers_of ex_data"
  define R where "R = readers_of ex_data"
  have "W ''0x10'' = {1}" "R ''0x10'' = {2}"
    by (simp_all add: W_def R_def ex_writers)
  then have "map (classify W R) ex_data = ?rhs"
    by (simp add: ex_data_def ex_mixed_def classify_def is_relevant_def ex_event_def)
  then show ?thesis
    by (simp add: classify_all_def W_def R_def)
qed

lemma ex_with_contents:
  "with_contents ex_fs (ex_frame ''queue.h'' 2 10 fn) =
     (ex_frame ''queue.h'' 2 10 fn)\<lparr>contents := Some (''  return ds->pop(x);'' @ [CHR 0x0A])\<rparr>"
  "with_contents ex_fs (ex_frame ''queue.h'' 2 3 fn) =
     (ex_frame ''queue.h'' 2 3 fn)\<lparr>contents := Some (''  return ds->pop(x);'' @ [CHR 0x0A])\<rparr>"
  "with_contents ex_fs (ex_frame ''queue.h'' 1 3 fn) =
     (ex_frame ''queue.h'' 1 3 fn)\<lparr>contents := Some (''  guards.protect(0, head);'' @ [CHR 0x0A])\<rparr>"
  by (simp_all add: with_contents_def ex_frame_contents)

lemma ex_resolve_frame:
  "files = Map.empty \<or> files = ex_fs \<Longrightarrow> (l, c) \<in> {(2, 10), (2, 3), (1, 3)} \<Longrightarrow>
   resolve_frame ex_fs files (ex_frame ''queue.h'' l c fn) =
     Inr (ex_fs, with_contents ex_fs (ex_frame ''queue.h'' l c fn))"
  by (auto simp: resolve_frame_def get_lines_def with_contents_def frame_contents_def
      ex_frame_def ex_fs_def py_index_def highlight_identity)

lemma ex_sanitize:
  "sanitize_events ex_fs Map.empty (classify_all ex_data) =
     Inr (ex_fs, map (sanitize ex_fs) (classify_all ex_data))"
  unfolding ex_classify_all
  by (simp add: sanitize_event_def sanitize_def ex_event_def ex_resolve_frame frame_filter_eq)

lemma ex_sanitizable: "list_all (sanitizable ex_fs) ex_data"
  by (simp add: ex_data_def ex_mixed_def sanitizable_def resolvable_def ex_event_def ex_frame_contents)

lemma ex_frame_denied:
  "frame_denied (ex_frame f l c ''std::atomic<int>::load'')"
  "\<not> frame_denied (ex_frame f l c ''Queue::pop'')"
  "\<not> frame_denied (ex_frame f l c ''main'')"
  "frame_denied (l'\<lparr>contents := x\<rparr>) = frame_denied l'"
  by (simp_all add: frame_denied_def frame_deny_def ex_frame_def)

lemma ex_sanitized:
  "map (sanitize ex_fs) (classify_all ex_data) =
     [(ex_event transition 1 True
        [(ex_frame ''queue.h'' 2 10 ''Queue::pop'')\<lparr>contents := Some (''  return ds->pop(x);'' @ [CHR 0x0A])\<rparr>])
        \<lparr>relevant := Some True\<rparr>,
      ex_event annotation 0 False [ex_frame ''queue.h'' 1 3 ''Guard::Guard''],
      (ex_event transition 2 False
        [(ex_frame ''queue.h'' 1 3 ''Queue::pop'')\<lparr>contents := Some (''  guards.protect(0, head);'' @ [CHR 0x0A])\<rparr>,
         (ex_frame ''queue.h'' 2 10 ''main'')\<lparr>contents := Some (''  return ds->pop(x);'' @ [CHR 0x0A])\<rparr>])
        \<lparr>relevant := Some True\<rparr>]"
  unfolding ex_classify_all
  by (simp add: sanitize_def ex_event_def ex_with_contents ex_frame_denied)

lemma ex_dumper: "dumper ex_fs ex_data = Inr ex_out"
  unfolding dumper_total [OF ex_sanitizable] ex_sanitized ex_out_def
  by (simp add: kept_def event_denied_def ex_event_def ex_frame_def)

section \<open>Properties of the whole script\<close>

text \<open>
  Claim C1. For every Transition event the stored \<^verbatim>\<open>relevant\<close> flag says: the address has
  more than one writer thread, or exactly one and the readers minus the writers are not
  empty. It is a function of the address and the two access sets: changing the event's own
  thread or \<^verbatim>\<open>does_write\<close> (with the access sets held fixed) does not change it. One
  writer that is the only reader is not relevant; one writer with a second reading thread is.
\<close>

theorem relevant_flag:
  assumes "i < length data" and "type (data ! i) = transition"
  shows "relevant (classify_all data ! i) =
           Some (1 < card (writers_of data (address (data ! i))) \<or>
                 card (writers_of data (address (data ! i))) = 1 \<and>
                 readers_of data (address (data ! i)) - writers_of data (address (data ! i)) \<noteq> {}) \<and>
         relevant (classify ws rs (t\<lparr>thread := th, does_write := dw\<rparr>)) = relevant (classify ws rs t) \<and>
         \<not> is_relevant {T1} {T1} \<and>
         (T1 \<noteq> T2 \<longrightarrow> is_relevant {T1} {T1, T2})"
proof -
  have "finite (readers_of data (address (data ! i)) - writers_of data (address (data ! i)))"
    using finite_readers_of by simp
  then have "0 < card (readers_of data (address (data ! i)) - writers_of data (address (data ! i)))
      \<longleftrightarrow> readers_of data (address (data ! i)) - writers_of data (address (data ! i)) \<noteq> {}"
    by (simp add: card_gt_0_iff)
  then have "relevant (classify_all data ! i) =
           Some (1 < card (writers_of data (address (data ! i))) \<or>
                 card (writers_of data (address (data ! i))) = 1 \<and>
                 readers_of data (address (data ! i)) - writers_of data (address (data ! i)) \<noteq> {})"
    using assms by (simp add: classify_all_def classify_relevant is_relevant_def)
  moreover have "relevant (classify ws rs (t\<lparr>thread := th, does_write := dw\<rparr>)) = relevant (classify ws rs t)"
    by (simp add: classify_def)
  moreover have "\<not> is_relevant {T1} {T1}"
    by (simp add: is_relevant_def)
  moreover have "T1 \<noteq> T2 \<longrightarrow> is_relevant {T1} {T1, T2}"
    by (auto simp: is_relevant_def insert_Diff_if)
  ultimately show ?thesis by blast
qed

theorem relevant_flag_witness:
  "0 < length ex_data \<and> type (ex_data ! 0) = transition \<and>
   relevant (classify_all ex_data ! 0) = Some True \<and> is_relevant {1} {1, 2}"
proof -
  have h: "0 < length ex_data" "type (ex_data ! 0) = transition"
    by (simp_all add: ex_data_def ex_event_def)
  have a: "address (ex_data ! 0) = ''0x10''"
    by (simp add: ex_data_def ex_event_def)
  from relevant_flag [OF h, of ws rs t th dw 1 2 for ws rs t th dw] h show ?thesis
    by (simp add: a ex_writers)
qed

text \<open>
  Claim C4. The access sets are one pass over the Transition events of the input list:
  the writers of an address are the threads of the writing transitions on it, the readers
  those of the other transitions on it, and Annotation events add nothing. The traces play
  no part in them, and every Transition of the final output carries the flag computed from
  the access sets of the whole input list, whatever was filtered or dropped afterwards.
\<close>

theorem access_sets_of_unfiltered_input:
  "writers_of data a =
     {thread t |t. t \<in> set data \<and> type t = transition \<and> does_write t \<and> address t = a} \<and>
   readers_of data a =
     {thread t |t. t \<in> set data \<and> type t = transition \<and> \<not> does_write t \<and> address t = a} \<and>
   writers_of (map (\<lambda>t. t\<lparr>trace := f t\<rparr>) data) = writers_of data \<and>
   readers_of (map (\<lambda>t. t\<lparr>trace := f t\<rparr>) data) = readers_of data \<and>
   (dumper fs data = Inr out \<longrightarrow>
      list_all (\<lambda>t. type t = transition \<longrightarrow>
        relevant t = Some (is_relevant (writers_of data (address t)) (readers_of data (address t))))
        out)"
proof (intro conjI impI)
  show "writers_of data a =
     {thread t |t. t \<in> set data \<and> type t = transition \<and> does_write t \<and> address t = a}"
    by (rule writers_of_eq)
  show "readers_of data a =
     {thread t |t. t \<in> set data \<and> type t = transition \<and> \<not> does_write t \<and> address t = a}"
    by (rule readers_of_eq)
  show "writers_of (map (\<lambda>t. t\<lparr>trace := f t\<rparr>) data) = writers_of data"
    by (simp add: writers_of_def build_access_ignores_trace)
  show "readers_of (map (\<lambda>t. t\<lparr>trace := f t\<rparr>) data) = readers_of data"
    by (simp add: readers_of_def build_access_ignores_trace)
next
  assume "dumper fs data = Inr out"
  from dumper_Inr(2) [OF this]
  have "set out \<subseteq> sanitize fs ` classify (writers_of data) (readers_of data) ` set data"
    by (auto simp: classify_all_def)
  then show "list_all (\<lambda>t. type t = transition \<longrightarrow>
        relevant t = Some (is_relevant (writers_of data (address t)) (readers_of data (address t))))
        out"
    by (auto simp: list_all_iff classify_relevant)
qed

theorem access_sets_of_unfiltered_input_witness:
  "writers_of ex_data ''0x10'' = {1} \<and> readers_of ex_data ''0x10'' = {2} \<and>
   dumper ex_fs ex_data = Inr ex_out \<and>
   list_all (\<lambda>t. type t = transition \<longrightarrow>
        relevant t = Some (is_relevant (writers_of ex_data (address t)) (readers_of ex_data (address t))))
        ex_out"
  using access_sets_of_unfiltered_input [of ex_data "''0x10''" "\<lambda>t. []" ex_fs ex_out]
    ex_dumper ex_writers
  by blast

text \<open>
  Claim C2, as the code has it. When the run succeeds, the final output is the list of
  sanitized events without the Transition events that have at least one remaining frame
  matching the event-level denylist (\<^verbatim>\<open>guards.protect\<close> in the contents;
  \<^verbatim>\<open>AllocateHPRec\<close>, \<^verbatim>\<open>HPAllocator\<close> or \<^verbatim>\<open>Guard\<close> in the function): one matching
  frame is enough to drop a Transition, and an Annotation event is never dropped.
\<close>

theorem transition_dropped_iff_some_frame_denied:
  "dumper fs data = Inr out \<Longrightarrow>
   out = filter (\<lambda>t. type t = annotation \<or> \<not> list_ex event_denied (trace t))
           (map (sanitize fs) (classify_all data))"
  using dumper_Inr(2) [of fs data out] by (simp add: kept_def [abs_def])

theorem transition_dropped_iff_some_frame_denied_witness:
  "dumper ex_fs ex_data = Inr ex_out \<and>
   ex_out = filter (\<lambda>t. type t = annotation \<or> \<not> list_ex event_denied (trace t))
           (map (sanitize ex_fs) (classify_all ex_data))"
  using transition_dropped_iff_some_frame_denied [OF ex_dumper] ex_dumper by blast

theorem transition_dropped_counterexample:
  "type ex_mixed = transition \<and> dumper ex_fs [ex_mixed] = Inr [] \<and>
   \<not> list_all event_denied (trace (sanitize ex_fs ex_mixed))"
proof -
  have s: "list_all (sanitizable ex_fs) [ex_mixed]"
    by (simp add: ex_mixed_def sanitizable_def resolvable_def ex_event_def ex_frame_contents)
  have t: "trace (sanitize ex_fs ex_mixed) =
      [(ex_frame ''queue.h'' 1 3 ''Queue::pop'')\<lparr>contents := Some (''  guards.protect(0, head);'' @ [CHR 0x0A])\<rparr>,
       (ex_frame ''queue.h'' 2 10 ''main'')\<lparr>contents := Some (''  return ds->pop(x);'' @ [CHR 0x0A])\<rparr>]"
    by (simp add: sanitize_def ex_mixed_def ex_event_def ex_with_contents ex_frame_denied)
  have "trace (sanitize ex_fs (classify w r ex_mixed)) = trace (sanitize ex_fs ex_mixed)" for w r
    by (simp add: sanitize_def)
  moreover have ty: "type ex_mixed = transition"
    by (simp add: ex_mixed_def ex_event_def)
  ultimately have "dumper ex_fs [ex_mixed] = Inr []"
    unfolding dumper_total [OF s]
    by (simp add: classify_all_def kept_def t event_denied_def ex_frame_def)
  moreover have "\<not> list_all event_denied (trace (sanitize ex_fs ex_mixed))"
    unfolding t by (simp add: event_denied_def ex_frame_def)
  ultimately show ?thesis using ty by blast
qed

text \<open>
  Claim C3, as the code has it. The frame-level filter is applied to the trace of every
  Transition event: after the sanitization loop such a trace is the resolved trace without
  the frames whose function contains \<^verbatim>\<open>::atomic\<close>, \<^verbatim>\<open>__atomic_base\<close>,
  \<^verbatim>\<open>boost::lockfree::CAS\<close> or \<^verbatim>\<open>boost::lockfree::tagged_ptr\<close>, every other frame
  retained and in the same order. An Annotation event goes through the loop unchanged,
  matching frames included.
\<close>

theorem frame_filter_on_transitions:
  "sanitize_events fs Map.empty ts = Inr (files, ts') \<Longrightarrow>
   ts' = map (\<lambda>t. if type t = transition
                   then t\<lparr>trace := filter (\<lambda>l. \<not> frame_denied l) (map (with_contents fs) (trace t))\<rparr>
                   else t) ts"
proof -
  assume r: "sanitize_events fs Map.empty ts = Inr (files, ts')"
  have "Map.empty \<subseteq>\<^sub>m fs" by simp
  from sanitize_events_Inr [OF this r] show ?thesis
    by (simp add: sanitize_def [abs_def])
qed

theorem frame_filter_on_transitions_witness:
  "sanitize_events ex_fs Map.empty (classify_all ex_data) =
     Inr (ex_fs, map (sanitize ex_fs) (classify_all ex_data)) \<and>
   map (sanitize ex_fs) (classify_all ex_data) =
     map (\<lambda>t. if type t = transition
               then t\<lparr>trace := filter (\<lambda>l. \<not> frame_denied l) (map (with_contents ex_fs) (trace t))\<rparr>
               else t) (classify_all ex_data)"
  using frame_filter_on_transitions [OF ex_sanitize] ex_sanitize by blast

theorem annotation_trace_counterexample:
  "type ex_annotated = annotation \<and> list_ex frame_denied (trace ex_annotated) \<and>
   dumper ex_fs [ex_annotated] = Inr [ex_annotated]"
proof -
  have ty: "type ex_annotated = annotation"
    by (simp add: ex_annotated_def ex_event_def)
  then have s: "list_all (sanitizable ex_fs) [ex_annotated]"
    by (simp add: sanitizable_def)
  have "dumper ex_fs [ex_annotated] = Inr [ex_annotated]"
    unfolding dumper_total [OF s] using ty
    by (simp add: classify_all_def classify_def sanitize_def kept_def)
  moreover have "list_ex frame_denied (trace ex_annotated)"
    by (simp add: ex_annotated_def ex_event_def ex_frame_denied)
  ultimately show ?thesis using ty by blast
qed

text \<open>
  Claim C7, as the code has it. A frame of a Transition event whose source file cannot be
  read makes the whole run fail: the script ends with an error and gives no output.
\<close>

theorem unreadable_file_fails_run:
  "t \<in> set data \<Longrightarrow> type t = transition \<Longrightarrow> l \<in> set (trace t) \<Longrightarrow> fs (file l) = None \<Longrightarrow>
   \<exists>e. dumper fs data = Inl e"
proof -
  assume a: "t \<in> set data" "type t = transition" "l \<in> set (trace t)" "fs (file l) = None"
  from a(4) have "\<not> resolvable fs l"
    by (simp add: resolvable_def frame_contents_def)
  with a(2,3) have "\<not> sanitizable fs t"
    by (auto simp: sanitizable_def list_all_iff)
  with a(1) have "\<not> list_all (sanitizable fs) data"
    by (auto simp: list_all_iff)
  then show ?thesis by (rule dumper_fails)
qed

theorem unreadable_file_fails_run_witness:
  "ex_missing \<in> set (ex_missing # ex_data) \<and> type ex_missing = transition \<and>
   ex_frame ''gone.cc'' 1 1 ''main'' \<in> set (trace ex_missing) \<and>
   ex_fs (file (ex_frame ''gone.cc'' 1 1 ''main'')) = None \<and>
   (\<exists>e. dumper ex_fs (ex_missing # ex_data) = Inl e)"
proof -
  have h: "ex_missing \<in> set (ex_missing # ex_data)" "type ex_missing = transition"
    "ex_frame ''gone.cc'' 1 1 ''main'' \<in> set (trace ex_missing)"
    "ex_fs (file (ex_frame ''gone.cc'' 1 1 ''main'')) = None"
    by (simp_all add: ex_missing_def ex_event_def ex_frame_def ex_fs_def)
  from unreadable_file_fails_run
      [of ex_missing "ex_missing # ex_data" "ex_frame ''gone.cc'' 1 1 ''main''" ex_fs] h
  show ?thesis by blast
qed

theorem unreadable_file_counterexample:
  "dumper ex_fs (ex_missing # ex_data) = Inl (FileUnavailable ''gone.cc'')"
  by (simp add: dumper_def classify_all_def classify_def ex_missing_def ex_event_def
      sanitize_event_def resolve_frame_def get_lines_def ex_frame_def ex_fs_def)

text \<open>
  Claim C9. Sanitization and dropping touch the trace only: with the traces erased, the
  output of a successful run is a subsequence of the classified input list, so every
  surviving event has the address, thread, \<^verbatim>\<open>does_write\<close>, \<^verbatim>\<open>relevant\<close> and description
  given by the classification stage, and the survivors keep their relative order.
\<close>

theorem sanitization_changes_trace_only:
  "dumper fs data = Inr out \<Longrightarrow>
   subseq (map (\<lambda>t. t\<lparr>trace := []\<rparr>) out) (map (\<lambda>t. t\<lparr>trace := []\<rparr>) (classify_all data))"
proof -
  assume "dumper fs data = Inr out"
  from dumper_Inr(2) [OF this]
  have "subseq out (map (sanitize fs) (classify_all data))"
    by simp
  then have "subseq (map (\<lambda>t. t\<lparr>trace := []\<rparr>) out)
      (map (\<lambda>t. t\<lparr>trace := []\<rparr>) (map (sanitize fs) (classify_all data)))"
    by (rule subseq_map)
  then show ?thesis
    by (simp add: o_def sanitize_strip)
qed

theorem sanitization_changes_trace_only_witness:
  "dumper ex_fs ex_data = Inr ex_out \<and>
   subseq (map (\<lambda>t. t\<lparr>trace := []\<rparr>) ex_out) (map (\<lambda>t. t\<lparr>trace := []\<rparr>) (classify_all ex_data))"
  using sanitization_changes_trace_only [OF ex_dumper] ex_dumper by blast

text \<open>
  Claim C10. For a 1-based column the token scan puts the line together again as it was:
  the result is the line itself, for every line. So for a frame of a Transition whose file
  is readable and whose 1-based line exists, the stored contents are the referenced source
  line, character for character, and every such frame of the final output carries that line.
\<close>

theorem contents_is_source_line:
  "(1 \<le> col \<longrightarrow> highlight a col = Inr a) \<and>
   (files \<subseteq>\<^sub>m fs \<and> fs (file l) = Some ls \<and> 1 \<le> line l \<and> line l \<le> int (length ls) \<and>
    1 \<le> column l \<longrightarrow>
      (\<exists>files'. resolve_frame fs files l =
         Inr (files', l\<lparr>contents := Some (ls ! nat (line l - 1))\<rparr>))) \<and>
   (dumper fs data = Inr out \<longrightarrow>
      list_all (\<lambda>t. type t = transition \<longrightarrow>
        list_all (\<lambda>l. 1 \<le> line l \<and> 1 \<le> column l \<longrightarrow>
          (case fs (file l) of
             None \<Rightarrow> False
           | Some ls \<Rightarrow> line l \<le> int (length ls) \<and> contents l = Some (ls ! nat (line l - 1))))
          (trace t)) out)"
proof (intro conjI impI)
  assume "1 \<le> col"
  then show "highlight a col = Inr a" by (rule highlight_identity)
next
  assume a: "files \<subseteq>\<^sub>m fs \<and> fs (file l) = Some ls \<and> 1 \<le> line l \<and> line l \<le> int (length ls) \<and>
    1 \<le> column l"
  then have "py_index ls (line l - 1) = Inr (ls ! nat (line l - 1))"
    by (simp add: py_index_def)
  with a have "frame_contents fs l = Inr (ls ! nat (line l - 1))"
    by (simp add: frame_contents_def highlight_identity)
  with a resolve_frame_cases [of files fs l]
  show "\<exists>files'. resolve_frame fs files l =
         Inr (files', l\<lparr>contents := Some (ls ! nat (line l - 1))\<rparr>)"
    by auto
next
  assume "dumper fs data = Inr out"
  from dumper_Inr [OF this]
  have s: "list_all (sanitizable fs) data"
    and o: "out = filter kept (map (sanitize fs) (classify_all data))"
    by simp_all
  show "list_all (\<lambda>t. type t = transition \<longrightarrow>
        list_all (\<lambda>l. 1 \<le> line l \<and> 1 \<le> column l \<longrightarrow>
          (case fs (file l) of
             None \<Rightarrow> False
           | Some ls \<Rightarrow> line l \<le> int (length ls) \<and> contents l = Some (ls ! nat (line l - 1))))
          (trace t)) out"
    unfolding list_all_iff
  proof (intro ballI impI)
    fix t' l'
    assume t': "t' \<in> set out" and ty: "type t' = transition" and l': "l' \<in> set (trace t')"
      and pos: "1 \<le> line l' \<and> 1 \<le> column l'"
    from t' o obtain t where t: "t \<in> set data"
      and t'eq: "t' = sanitize fs (classify (writers_of data) (readers_of data) t)"
      by (auto simp: classify_all_def)
    from ty t'eq have tyt: "type t = transition" by simp
    with s t have r: "list_all (resolvable fs) (trace t)"
      by (auto simp: list_all_iff sanitizable_def)
    from l' t'eq tyt obtain l where l: "l \<in> set (trace t)" and l'eq: "l' = with_contents fs l"
      by (auto simp: sanitize_def)
    from r l have "resolvable fs l" by (simp add: list_all_iff)
    from resolvable_source_line [OF this] pos l'eq
    show "case fs (file l') of
             None \<Rightarrow> False
           | Some ls \<Rightarrow> line l' \<le> int (length ls) \<and> contents l' = Some (ls ! nat (line l' - 1))"
      by auto
  qed
qed

theorem contents_is_source_line_witness:
  "highlight ''  return ds->pop(x);'' 10 = Inr ''  return ds->pop(x);'' \<and>
   (\<exists>files'. resolve_frame ex_fs Map.empty (ex_frame ''queue.h'' 2 10 ''Queue::pop'') =
      Inr (files', (ex_frame ''queue.h'' 2 10 ''Queue::pop'')
                     \<lparr>contents := Some (''  return ds->pop(x);'' @ [CHR 0x0A])\<rparr>)) \<and>
   dumper ex_fs ex_data = Inr ex_out \<and>
   list_all (\<lambda>t. type t = transition \<longrightarrow>
        list_all (\<lambda>l. 1 \<le> line l \<and> 1 \<le> column l \<longrightarrow>
          (case ex_fs (file l) of
             None \<Rightarrow> False
           | Some ls \<Rightarrow> line l \<le> int (length ls) \<and> contents l = Some (ls ! nat (line l - 1))))
          (trace t)) ex_out"
proof -
  have "Map.empty \<subseteq>\<^sub>m ex_fs \<and>
    ex_fs (file (ex_frame ''queue.h'' 2 10 ''Queue::pop'')) =
      Some [''  guards.protect(0, head);'' @ [CHR 0x0A], ''  return ds->pop(x);'' @ [CHR 0x0A]] \<and>
    1 \<le> line (ex_frame ''queue.h'' 2 10 ''Queue::pop'') \<and>
    line (ex_frame ''queue.h'' 2 10 ''Queue::pop'') \<le>
      int (length [''  guards.protect(0, head);'' @ [CHR 0x0A], ''  return ds->pop(x);'' @ [CHR 0x0A]]) \<and>
    1 \<le> column (ex_frame ''queue.h'' 2 10 ''Queue::pop'')"
    by (simp add: ex_fs_def ex_frame_def)
  with contents_is_source_line [of 10 "''  return ds->pop(x);''" Map.empty ex_fs
      "ex_frame ''queue.h'' 2 10 ''Queue::pop''"
      "[''  guards.protect(0, head);'' @ [CHR 0x0A], ''  return ds->pop(x);'' @ [CHR 0x0A]]"
      ex_data ex_out] ex_dumper
  show ?thesis by (simp add: ex_frame_def)
qed

end
